theory Spec2Isabelle
  imports Complex_Main
begin

section \<open>Constants (constants.py)\<close>

text \<open>
  A Python string is modelled as a list of characters; one \<open>char\<close> stands for one code
  point in the range 0..255. The player table \<open>PLAYERS\<close> is a dictionary with the two
  keys \<open>'A'\<close> and \<open>'B'\<close>; the keys are a datatype, the entries a record, and the
  iteration order of the dictionary is kept in \<open>PLAYERS_items\<close>.
\<close>

definition MIN_EQ_LEN :: nat where
  "MIN_EQ_LEN = 5"

definition EMPTY_CELL :: char where
  "EMPTY_CELL = CHR '' ''"

datatype player_id = A | B

record player_data =
  symbol :: char
  name :: string
  color :: string
  text_color :: string

fun PLAYERS :: "player_id \<Rightarrow> player_data" where
  "PLAYERS A = \<lparr>symbol = CHR ''x'', name = ''Player A (White)'', color = ''white'',
                 text_color = ''black''\<rparr>"
| "PLAYERS B = \<lparr>symbol = CHR ''y'', name = ''Player B (Yellow)'', color = ''yellow'',
                 text_color = ''black''\<rparr>"

definition PLAYERS_items :: "(player_id \<times> player_data) list" where
  "PLAYERS_items = [(A, PLAYERS A), (B, PLAYERS B)]"

section \<open>The normaliser (logic.py, preprocess\_equation\_string)\<close>

text \<open>
  \<open>str.isdigit\<close> on the code points 0..255: the ten ASCII digits and the three
  superscript digits U+00B2, U+00B3 and U+00B9.
\<close>

definition isdigit :: "char \<Rightarrow> bool" where
  "isdigit ch = (let n = (of_char ch :: nat)
                 in (48 \<le> n \<and> n \<le> 57) \<or> n = 178 \<or> n = 179 \<or> n = 185)"

definition player_symbols :: "char list" where
  "player_symbols = map (\<lambda>(pid, p). symbol p) PLAYERS_items"

text \<open>
  The scan of the source runs an index \<open>i\<close> over the string; here the unread rest of
  the string is the argument. A digit starts a number that takes every following digit
  (\<open>takeWhile\<close>), and the scan continues behind it (\<open>dropWhile\<close>).
\<close>

function preprocess_equation_string :: "string \<Rightarrow> string" where
  "preprocess_equation_string [] = []"
| "preprocess_equation_string (ch # rest) =
     (if isdigit ch then
        (let num = ch # takeWhile isdigit rest;
             after = dropWhile isdigit rest
         in num
            @ (if after \<noteq> [] \<and> hd after \<in> set player_symbols then ''*'' else [])
            @ preprocess_equation_string after)
      else if ch \<in> set player_symbols then
        ch # (if rest \<noteq> [] \<and> isdigit (hd rest) then ''*'' else [])
           @ preprocess_equation_string rest
      else if ch \<in> set ''+-*/='' then
        ch # preprocess_equation_string rest
      else
        preprocess_equation_string rest)"
  by pat_completeness auto
termination
  by (relation "measure length") (auto simp: length_dropWhile_le less_Suc_eq_le)

section \<open>The computer-algebra interface\<close>

text \<open>
  Parsing and solving are done by the SymPy library, which is not part of the repository.
  The four library calls of \<open>is_valid_equation\<close> are the fields of a record that the
  model takes as a parameter; \<open>None\<close> stands for a raised exception. Type \<open>'s\<close> is the
  type of symbol objects and \<open>'e\<close> the type of parsed expressions, compared by their
  structure (\<open>lhs == rhs\<close> is equality of \<open>'e\<close>).
\<close>

text \<open>
  A candidate returned by the solver, as far as the acceptance loop looks at it: an
  \<open>Integer\<close>, a \<open>Rational\<close> (with its numerator \<open>p\<close> and its denominator \<open>q\<close> in
  lowest terms, an \<open>Integer\<close> being a \<open>Rational\<close> too), a finite \<open>Float\<close>, another
  finite real number, or
  anything else (infinite, complex, symbolic, or an object without the numeric
  attributes). The value of a candidate is an exact real number.
\<close>

datatype sol = Integer int | Rational rat | Float real | RealNumber real | Other

fun is_Integer :: "sol \<Rightarrow> bool" where
  "is_Integer (Integer n) = True"
| "is_Integer s = False"

fun is_Float :: "sol \<Rightarrow> bool" where
  "is_Float (Float x) = True"
| "is_Float s = False"

fun is_Rational :: "sol \<Rightarrow> bool" where
  "is_Rational (Integer n) = True"
| "is_Rational (Rational x) = True"
| "is_Rational s = False"

fun is_real :: "sol \<Rightarrow> bool" where
  "is_real Other = False"
| "is_real s = True"

fun is_finite :: "sol \<Rightarrow> bool" where
  "is_finite Other = False"
| "is_finite s = True"

fun sol_p :: "sol \<Rightarrow> int" where
  "sol_p (Integer n) = n"
| "sol_p (Rational x) = fst (quotient_of x)"
| "sol_p s = 0"

fun sol_q :: "sol \<Rightarrow> int" where
  "sol_q (Integer n) = 1"
| "sol_q (Rational x) = snd (quotient_of x)"
| "sol_q s = 0"

fun sol_value :: "sol \<Rightarrow> real" where
  "sol_value (Integer n) = of_int n"
| "sol_value (Rational x) = of_rat x"
| "sol_value (Float x) = x"
| "sol_value (RealNumber x) = x"
| "sol_value Other = 0"

text \<open>
  The literal \<open>1e-10\<close> of the source is a double-precision number: the double nearest to
  \<open>1 / 10 ^ 10\<close>, which is \<open>7737125245533627 / 2 ^ 86\<close> and lies a little above
  \<open>1 / 10 ^ 10\<close>. The test \<open>abs(s - round(s)) < 1e-10\<close> compares the exact distance with
  this number.
\<close>

definition float_1e_10 :: real where
  "float_1e_10 = 7737125245533627 / 2 ^ 86"

text \<open>\<open>int(s)\<close> truncates towards zero; \<open>round(s)\<close> rounds to the nearest integer, a tie
  to the even one.\<close>

definition py_int :: "real \<Rightarrow> int" where
  "py_int x = (if 0 \<le> x then \<lfloor>x\<rfloor> else \<lceil>x\<rceil>)"

definition py_round :: "real \<Rightarrow> int" where
  "py_round x = (let f = \<lfloor>x\<rfloor>; d = x - of_int f
                 in if d < 1 / 2 then f
                    else if 1 / 2 < d then f + 1
                    else if even f then f else f + 1)"

record ('s, 'e) cas =
  symbols :: "char \<Rightarrow> 's option"
  sympify :: "string \<Rightarrow> char \<Rightarrow> 's \<Rightarrow> 'e option"
  has :: "'e \<Rightarrow> 's \<Rightarrow> bool"
  solve :: "'e \<Rightarrow> 'e \<Rightarrow> 's \<Rightarrow> sol list option"

section \<open>The validator (logic.py, is\_valid\_equation)\<close>

text \<open>The opponent's symbol: the first entry of \<open>PLAYERS\<close> whose symbol differs.\<close>

definition opp_var :: "char \<Rightarrow> char option" where
  "opp_var player_var =
     map_option (\<lambda>(pid, p). symbol p)
       (find (\<lambda>(pid, p). symbol p \<noteq> player_var) PLAYERS_items)"

text \<open>\<open>str.strip\<close>: white space of the code points 0..255 is removed at both ends.\<close>

definition isspace :: "char \<Rightarrow> bool" where
  "isspace ch = (let n = (of_char ch :: nat)
                 in (9 \<le> n \<and> n \<le> 13) \<or> (28 \<le> n \<and> n \<le> 32) \<or> n = 133 \<or> n = 160)"

definition strip :: "string \<Rightarrow> string" where
  "strip s = rev (dropWhile isspace (rev (dropWhile isspace s)))"

text \<open>A side of the equation as it is handed to the parser:
  \<open>s.strip() if s.strip() else '0'\<close>.\<close>

definition strip_or_zero :: "string \<Rightarrow> string" where
  "strip_or_zero s = (if strip s \<noteq> [] then strip s else ''0'')"

text \<open>\<open>processed.split('=', 1)\<close>, for a string that holds an \<open>=\<close>.\<close>

definition split_eq :: "string \<Rightarrow> string \<times> string" where
  "split_eq s = (takeWhile (\<lambda>ch. ch \<noteq> CHR ''='') s, tl (dropWhile (\<lambda>ch. ch \<noteq> CHR ''='') s))"

text \<open>The body of the acceptance loop for one candidate; \<open>None\<close> is "no integer", also
  when the conversion raises.\<close>

definition solution_int :: "sol \<Rightarrow> int option" where
  "solution_int s =
     (if is_Integer s \<and> is_finite s then Some (py_int (sol_value s))
      else if is_Float s \<and> is_finite s \<and> sol_value s = of_int (py_int (sol_value s))
        then Some (py_int (sol_value s))
      else if is_Rational s \<and> is_finite s \<and> sol_q s = 1 then Some (sol_p s)
      else if is_real s \<and> is_finite s then
        (if \<bar>sol_value s - of_int (py_round (sol_value s))\<bar> < float_1e_10
         then Some (py_round (sol_value s)) else None)
      else None)"

fun valid_integer_solution :: "sol list \<Rightarrow> int option" where
  "valid_integer_solution [] = None"
| "valid_integer_solution (s # sols) =
     (case solution_int s of
        Some n \<Rightarrow> Some n
      | None \<Rightarrow> valid_integer_solution sols)"

text \<open>The part of the function inside \<open>try\<close>; every exception ends in \<open>None\<close>.\<close>

definition parse_and_solve :: "('s, 'e) cas \<Rightarrow> string \<Rightarrow> char \<Rightarrow> int option" where
  "parse_and_solve K processed player_var =
     (case symbols K player_var of
        None \<Rightarrow> None
      | Some var \<Rightarrow>
          (let (l, r) = split_eq processed;
               lhs_s = strip_or_zero l;
               rhs_s = strip_or_zero r
           in case sympify K lhs_s player_var var of
                None \<Rightarrow> None
              | Some lhs \<Rightarrow>
                  (case sympify K rhs_s player_var var of
                     None \<Rightarrow> None
                   | Some rhs \<Rightarrow>
                       if \<not> (has K lhs var \<or> has K rhs var) then None
                       else if lhs = rhs \<and> \<not> has K lhs var then None
                       else if lhs = rhs \<and> has K lhs var then None
                       else (case solve K lhs rhs var of
                               None \<Rightarrow> None
                             | Some sols \<Rightarrow>
                                 if sols = [] then None
                                 else valid_integer_solution sols))))"

definition is_valid_equation :: "('s, 'e) cas \<Rightarrow> string \<Rightarrow> char \<Rightarrow> int option" where
  "is_valid_equation K raw_eq_str player_var =
     (if length raw_eq_str < MIN_EQ_LEN then None
      else if count_list raw_eq_str CHR ''='' \<noteq> 1 then None
      else if player_var \<notin> set raw_eq_str then None
      else if (case opp_var player_var of None \<Rightarrow> False | Some ov \<Rightarrow> ov \<in> set raw_eq_str)
        then None
      else
        (let processed = preprocess_equation_string raw_eq_str
         in if CHR ''='' \<notin> set processed then None
            else if \<not> (\<exists>op \<in> set ''+-*/''. op \<in> set processed) then None
            else parse_and_solve K processed player_var))"

section \<open>The line scanner (logic.py, check\_win\_board)\<close>

text \<open>
  The board is a list of rows, each a list of one-character cells. The function returns
  the tuple \<open>(True, coords, raw, solution)\<close> or \<open>(False, [], None, None)\<close>; the model
  returns \<open>Some\<close> of a record of the last three components, or \<open>None\<close>.
\<close>

record win_result =
  coordinates :: "(int \<times> int) list"
  equation_text :: string
  solution :: int

definition DIRECTIONS :: "(int \<times> int) list" where
  "DIRECTIONS = [(0, 1), (1, 0), (1, 1), (1, -1), (0, -1), (-1, 0), (-1, -1), (-1, 1)]"

text \<open>\<open>range(lo, hi)\<close>, and \<open>xs[i]\<close> with Python's negative indices, \<open>None\<close> for IndexError.\<close>

definition py_range :: "int \<Rightarrow> int \<Rightarrow> int list" where
  "py_range lo hi = map (\<lambda>k. lo + int k) [0..<nat (hi - lo)]"

definition py_index :: "'a list \<Rightarrow> int \<Rightarrow> 'a option" where
  "py_index xs i =
     (if 0 \<le> i \<and> i < int (length xs) then Some (xs ! nat i)
      else if - int (length xs) \<le> i \<and> i < 0 then Some (xs ! nat (int (length xs) + i))
      else None)"

definition board_at :: "char list list \<Rightarrow> int \<Rightarrow> int \<Rightarrow> char option" where
  "board_at bd r c = (case py_index bd r of None \<Rightarrow> None | Some row \<Rightarrow> py_index row c)"

text \<open>A loop that returns from the function as soon as its body does: the body's result
  \<open>Some w\<close> is the return, \<open>None\<close> goes on to the next element.\<close>

fun first_some :: "('a \<Rightarrow> 'b option) \<Rightarrow> 'a list \<Rightarrow> 'b option" where
  "first_some f [] = None"
| "first_some f (x # xs) = (case f x of Some w \<Rightarrow> Some w | None \<Rightarrow> first_some f xs)"

text \<open>The validation block that the source writes out three times: the sequence as it
  stands, then reversed, once it has \<open>MIN_EQ_LEN\<close> characters.\<close>

definition check_sequence ::
  "('s, 'e) cas \<Rightarrow> char \<Rightarrow> string \<Rightarrow> (int \<times> int) list \<Rightarrow> win_result option" where
  "check_sequence K player_sym raw coords =
     (if length raw \<ge> MIN_EQ_LEN then
        (case is_valid_equation K raw player_sym of
           Some s \<Rightarrow> Some \<lparr>coordinates = coords, equation_text = raw, solution = s\<rparr>
         | None \<Rightarrow>
             (case is_valid_equation K (rev raw) player_sym of
                Some s \<Rightarrow> Some \<lparr>coordinates = coords, equation_text = rev raw, solution = s\<rparr>
              | None \<Rightarrow> None))
      else None)"

text \<open>The innermost loop \<open>for i in range(size)\<close>, over the values of \<open>i\<close> still to come,
  with the sequence \<open>raw\<close> and its coordinates built so far. \<open>None\<close> is the end of the
  loop without a return, by \<open>break\<close> or by exhaustion.\<close>

fun extend_line ::
  "('s, 'e) cas \<Rightarrow> char list list \<Rightarrow> int \<Rightarrow> char \<Rightarrow> int \<times> int \<Rightarrow> int \<times> int \<Rightarrow>
   int list \<Rightarrow> string \<Rightarrow> (int \<times> int) list \<Rightarrow> win_result option" where
  "extend_line K bd sz player_sym (r0, c0) (dr, dc) [] raw coords = None"
| "extend_line K bd sz player_sym (r0, c0) (dr, dc) (i # is) raw coords =
     (let r = r0 + i * dr; c = c0 + i * dc
      in if \<not> (0 \<le> r \<and> r < sz \<and> 0 \<le> c \<and> c < sz) then
           check_sequence K player_sym raw coords
         else
           (case board_at bd r c of
              None \<Rightarrow> None
            | Some ch \<Rightarrow>
                if ch = EMPTY_CELL then check_sequence K player_sym raw coords
                else
                  (case check_sequence K player_sym (raw @ [ch]) (coords @ [(r, c)]) of
                     Some w \<Rightarrow> Some w
                   | None \<Rightarrow>
                       extend_line K bd sz player_sym (r0, c0) (dr, dc) is
                         (raw @ [ch]) (coords @ [(r, c)]))))"

definition check_win_board ::
  "('s, 'e) cas \<Rightarrow> char list list \<Rightarrow> int \<Rightarrow> char \<Rightarrow> win_result option" where
  "check_win_board K bd sz player_sym =
     (if bd = [] then None
      else
        first_some (\<lambda>r0.
          first_some (\<lambda>c0.
            first_some (\<lambda>d.
              extend_line K bd sz player_sym (r0, c0) d (py_range 0 sz) [] [])
              DIRECTIONS)
            (py_range 0 sz))
          (py_range 0 sz))"

section \<open>The placement rule (gui.py, is\_variable\_placement\_valid)\<close>

text \<open>The fields of the client object that the method reads.\<close>

record client_gui =
  player_id :: "player_id option"
  board :: "char list list"
  board_size :: int

text \<open>The loop \<open>for i in range(1, self.board_size)\<close> along one direction: \<open>Some False\<close>
  is the \<open>return False\<close>, \<open>None\<close> the end of the loop by \<open>break\<close> or by exhaustion.\<close>

fun check_direction ::
  "char list list \<Rightarrow> int \<Rightarrow> char \<Rightarrow> int \<times> int \<Rightarrow> int \<times> int \<Rightarrow> int list \<Rightarrow> bool option" where
  "check_direction bd sz opp_sym (r, c) (dr, dc) [] = None"
| "check_direction bd sz opp_sym (r, c) (dr, dc) (i # is) =
     (let nr = r + i * dr; nc = c + i * dc
      in if \<not> (0 \<le> nr \<and> nr < sz \<and> 0 \<le> nc \<and> nc < sz) then None
         else
           (case board_at bd nr nc of
              None \<Rightarrow> None
            | Some check_char \<Rightarrow>
                if check_char = opp_sym then Some False
                else if check_char \<noteq> EMPTY_CELL then None
                else check_direction bd sz opp_sym (r, c) (dr, dc) is))"

definition is_variable_placement_valid :: "client_gui \<Rightarrow> int \<Rightarrow> int \<Rightarrow> bool" where
  "is_variable_placement_valid self r c =
     (case player_id self of
        None \<Rightarrow> False
      | Some pid \<Rightarrow>
          (let my_sym = symbol (PLAYERS pid);
               opponent_pid = (if pid = A then B else A);
               opp_sym = symbol (PLAYERS opponent_pid)
           in case first_some (\<lambda>dr.
                     first_some (\<lambda>dc.
                       if dr = 0 \<and> dc = 0 then None
                       else check_direction (board self) (board_size self) opp_sym (r, c)
                              (dr, dc) (py_range 1 (board_size self)))
                       (py_range (-1) 2))
                     (py_range (-1) 2) of
                Some verdict \<Rightarrow> verdict
              | None \<Rightarrow> True))"

section \<open>A parser and solver for linear equations\<close>

text \<open>
  Modelled from the spec: the parser and the solver (the SymPy library is absent from the
  repository). The concrete examples of the specification need them to run on. This
  instance of the interface is written from sections 4.2 and 9 of the specification: a
  recursive-descent parser that builds a syntax tree over integer literals, the variable
  and the four operators, and a closed-form solver for degree at most one.
\<close>

datatype expr = Num int | Var | Add expr expr | Sub expr expr | Mul expr expr | Div expr expr

datatype token = TNum int | TVar | TOp char

text \<open>Modelled from the spec: the tokens of a side (SymPy's tokenizer is absent). A run
  of ASCII digits is one number, the variable is one token, so is each operator; any
  other character is a malformed token.\<close>

definition is_ascii_digit :: "char \<Rightarrow> bool" where
  "is_ascii_digit ch = (let n = (of_char ch :: nat) in 48 \<le> n \<and> n \<le> 57)"

definition digit_val :: "char \<Rightarrow> int" where
  "digit_val ch = int (of_char ch) - 48"

definition number_of_digits :: "string \<Rightarrow> int" where
  "number_of_digits ds = foldl (\<lambda>n d. 10 * n + digit_val d) 0 ds"

function lex :: "char \<Rightarrow> string \<Rightarrow> token list option" where
  "lex v [] = Some []"
| "lex v (ch # rest) =
     (if is_ascii_digit ch then
        map_option ((#) (TNum (number_of_digits (ch # takeWhile is_ascii_digit rest))))
          (lex v (dropWhile is_ascii_digit rest))
      else if ch = v then map_option ((#) TVar) (lex v rest)
      else if ch \<in> set ''+-*/'' then map_option ((#) (TOp ch)) (lex v rest)
      else None)"
  by pat_completeness auto
termination
  by (relation "measure (\<lambda>(v, s). length s)") (auto simp: length_dropWhile_le less_Suc_eq_le)

text \<open>Modelled from the spec: the expression parser (SymPy's \<open>sympify\<close> is absent), with
  the standard precedence, left-to-right association, and a parse failure on a division
  by the literal zero and on every malformed sequence of tokens.\<close>

fun factor :: "token \<Rightarrow> expr option" where
  "factor (TNum n) = Some (Num n)"
| "factor TVar = Some Var"
| "factor (TOp c) = None"

fun term_rest :: "expr \<Rightarrow> token list \<Rightarrow> (expr \<times> token list) option" where
  "term_rest e (TOp c # t # ts) =
     (if c = CHR ''*'' then
        (case factor t of None \<Rightarrow> None | Some f \<Rightarrow> term_rest (Mul e f) ts)
      else if c = CHR ''/'' then
        (case factor t of
           None \<Rightarrow> None
         | Some f \<Rightarrow> if f = Num 0 then None else term_rest (Div e f) ts)
      else Some (e, TOp c # t # ts))"
| "term_rest e ts = Some (e, ts)"

function expr_rest :: "expr \<Rightarrow> token list \<Rightarrow> expr option" where
  "expr_rest e [] = Some e"
| "expr_rest e [t] = None"
| "expr_rest e (t # u # ts) =
     (if t = TOp CHR ''+'' \<or> t = TOp CHR ''-'' then
        (case factor u of
           None \<Rightarrow> None
         | Some f \<Rightarrow>
             (case term_rest f ts of
                None \<Rightarrow> None
              | Some (tm, ts') \<Rightarrow>
                  expr_rest (if t = TOp CHR ''+'' then Add e tm else Sub e tm) ts'))
      else None)"
  by pat_completeness auto
termination
proof -
  have shorter: "length ts' \<le> length ts" if "term_rest e ts = Some (e', ts')"
    for e e' :: expr and ts ts' :: "token list"
    using that
    by (induction e ts rule: term_rest.induct) (auto split: if_splits option.splits)
  show ?thesis
    by (relation "measure (\<lambda>(e, ts). length ts)") (auto dest: shorter)
qed

definition parse_expr :: "token list \<Rightarrow> expr option" where
  "parse_expr ts =
     (case ts of
        [] \<Rightarrow> None
      | t # ts' \<Rightarrow>
          (case factor t of
             None \<Rightarrow> None
           | Some f \<Rightarrow>
               (case term_rest f ts' of
                  None \<Rightarrow> None
                | Some (tm, ts'') \<Rightarrow> expr_rest tm ts'')))"

fun has_var :: "expr \<Rightarrow> bool" where
  "has_var (Num n) = False"
| "has_var Var = True"
| "has_var (Add a b) = (has_var a \<or> has_var b)"
| "has_var (Sub a b) = (has_var a \<or> has_var b)"
| "has_var (Mul a b) = (has_var a \<or> has_var b)"
| "has_var (Div a b) = (has_var a \<or> has_var b)"

text \<open>Modelled from the spec: the solver (SymPy's \<open>solve\<close> is absent), restricted to
  degree at most one as section 9 allows. \<open>linear e = Some (a, b)\<close> is the normal form
  \<open>a * x + b\<close>; a product of two sides that both hold the variable, and a division by a
  side that holds the variable or is zero, have no such form.\<close>

fun linear :: "expr \<Rightarrow> (rat \<times> rat) option" where
  "linear (Num n) = Some (0, of_int n)"
| "linear Var = Some (1, 0)"
| "linear (Add e f) =
     (case (linear e, linear f) of
        (Some (a, b), Some (c, d)) \<Rightarrow> Some (a + c, b + d)
      | _ \<Rightarrow> None)"
| "linear (Sub e f) =
     (case (linear e, linear f) of
        (Some (a, b), Some (c, d)) \<Rightarrow> Some (a - c, b - d)
      | _ \<Rightarrow> None)"
| "linear (Mul e f) =
     (case (linear e, linear f) of
        (Some (a, b), Some (c, d)) \<Rightarrow>
          if a \<noteq> 0 \<and> c \<noteq> 0 then None else Some (a * d + c * b, b * d)
      | _ \<Rightarrow> None)"
| "linear (Div e f) =
     (case (linear e, linear f) of
        (Some (a, b), Some (c, d)) \<Rightarrow>
          if c \<noteq> 0 \<or> d = 0 then None else Some (a / d, b / d)
      | _ \<Rightarrow> None)"

definition sol_of_rat :: "rat \<Rightarrow> sol" where
  "sol_of_rat x = (let (p, q) = quotient_of x in if q = 1 then Integer p else Rational x)"

definition solve_linear :: "expr \<Rightarrow> expr \<Rightarrow> sol list option" where
  "solve_linear lhs rhs =
     (case (linear lhs, linear rhs) of
        (Some (a, b), Some (c, d)) \<Rightarrow>
          if a - c = 0 then Some [] else Some [sol_of_rat ((d - b) / (a - c))]
      | _ \<Rightarrow> None)"

text \<open>Modelled from the spec: the four library calls (SymPy's \<open>symbols\<close>, \<open>sympify\<close>,
  \<open>has\<close> and \<open>solve\<close> are absent), put together from the parser and the solver above. A
  symbol object is the variable's character.\<close>

definition linear_cas :: "(char, expr) cas" where
  "linear_cas =
     \<lparr>symbols = (\<lambda>player_var. Some player_var),
      sympify = (\<lambda>s player_var var. case lex var s of None \<Rightarrow> None | Some ts \<Rightarrow> parse_expr ts),
      has = (\<lambda>e var. has_var e),
      solve = (\<lambda>lhs rhs var. solve_linear lhs rhs)\<rparr>"

text \<open>The same parser with a solver that answers with a given list of candidates: an
  instance of the interface for equations of higher degree, whose roots the linear solver
  does not compute.\<close>

definition cas_with_candidates :: "sol list \<Rightarrow> (char, expr) cas" where
  "cas_with_candidates sols = linear_cas\<lparr>solve := (\<lambda>lhs rhs var. Some sols)\<rparr>"

section \<open>The properties of the specification, in its words\<close>

text \<open>The four structural prechecks of section 4.2.\<close>

definition passes_prechecks :: "string \<Rightarrow> char \<Rightarrow> bool" where
  "passes_prechecks s v =
     (MIN_EQ_LEN \<le> length s \<and> count_list s CHR ''='' = 1 \<and> v \<in> set s \<and>
      (case opp_var v of None \<Rightarrow> True | Some ov \<Rightarrow> ov \<notin> set s))"

definition has_operator :: "string \<Rightarrow> bool" where
  "has_operator processed = (\<exists>op \<in> set ''+-*/''. op \<in> set processed)"

text \<open>The normalised form of \<open>s\<close> parses as \<open>lhs = rhs\<close>.\<close>

definition parses_as :: "('s, 'e) cas \<Rightarrow> string \<Rightarrow> char \<Rightarrow> 's \<Rightarrow> 'e \<Rightarrow> 'e \<Rightarrow> bool" where
  "parses_as K s v var lhs rhs =
     (symbols K v = Some var \<and>
      sympify K (strip_or_zero (fst (split_eq (preprocess_equation_string s)))) v var = Some lhs \<and>
      sympify K (strip_or_zero (snd (split_eq (preprocess_equation_string s)))) v var = Some rhs)"

text \<open>Solution acceptance in the words of section 4.2: a candidate qualifies when it is an
  exact integer, a rational with denominator 1, or a finite real value within \<open>1e-10\<close> of
  its nearest integer; the result is the candidate rounded to that integer. The tolerance
  \<open>1e-10\<close> is the floating-point number of that name.\<close>

definition within_tolerance :: "real \<Rightarrow> bool" where
  "within_tolerance x = (\<bar>x - of_int (round x)\<bar> < float_1e_10)"



text \<open>
  The line scanner in the words of section 4.3. A run is the sequence of cells, with their
  coordinates, that a walk from an origin collects before it steps off the board or onto
  an empty cell. From an origin on the board no walk has more than \<open>size\<close> cells on the
  board, so the ray is listed up to that length.
\<close>

type_synonym run = "((int \<times> int) \<times> char) list"

definition ray_directions :: "(int \<times> int) list" where
  "ray_directions = [(0, 1), (1, 0), (1, 1), (1, -1), (0, -1), (-1, 0), (-1, -1), (-1, 1)]"

definition on_board :: "int \<Rightarrow> int \<times> int \<Rightarrow> bool" where
  "on_board sz p = (0 \<le> fst p \<and> fst p < sz \<and> 0 \<le> snd p \<and> snd p < sz)"

definition cell :: "char list list \<Rightarrow> int \<times> int \<Rightarrow> char option" where
  "cell bd p = board_at bd (fst p) (snd p)"

text \<open>The character of a cell that is on the board and not empty. A cell that the list
  of rows does not have ends a run as an empty cell does.\<close>

definition occupied :: "char list list \<Rightarrow> int \<Rightarrow> int \<times> int \<Rightarrow> char option" where
  "occupied bd sz p =
     (if on_board sz p then
        (case cell bd p of
           None \<Rightarrow> None
         | Some ch \<Rightarrow> if ch = EMPTY_CELL then None else Some ch)
      else None)"

definition step :: "int \<times> int \<Rightarrow> int \<times> int \<Rightarrow> int \<Rightarrow> int \<times> int" where
  "step p d k = (fst p + k * fst d, snd p + k * snd d)"

definition ray :: "int \<Rightarrow> int \<times> int \<Rightarrow> int \<times> int \<Rightarrow> (int \<times> int) list" where
  "ray sz origin d = map (step origin d) (py_range 0 sz)"

fun run_along :: "(int \<times> int \<Rightarrow> char option) \<Rightarrow> (int \<times> int) list \<Rightarrow> run" where
  "run_along occ [] = []"
| "run_along occ (p # ps) =
     (case occ p of None \<Rightarrow> [] | Some ch \<Rightarrow> (p, ch) # run_along occ ps)"

definition run_from :: "char list list \<Rightarrow> int \<Rightarrow> int \<times> int \<Rightarrow> int \<times> int \<Rightarrow> run" where
  "run_from bd sz origin d = run_along (occupied bd sz) (ray sz origin d)"

text \<open>The run after each of its extensions, shortest first; the validation attempts of a
  line are those of at least \<open>MIN_EQ_LEN\<close> cells, and then the whole run once more, at the
  boundary that ends it.\<close>

definition extensions :: "run \<Rightarrow> run list" where
  "extensions rn = map (\<lambda>n. take n rn) [1..<Suc (length rn)]"

definition line_attempts :: "run \<Rightarrow> run list" where
  "line_attempts rn = filter (\<lambda>a. MIN_EQ_LEN \<le> length a) (extensions rn @ [rn])"

definition origins :: "int \<Rightarrow> (int \<times> int) list" where
  "origins sz = concat (map (\<lambda>r0. map (\<lambda>c0. (r0, c0)) (py_range 0 sz)) (py_range 0 sz))"

definition scan_attempts :: "char list list \<Rightarrow> int \<Rightarrow> run list" where
  "scan_attempts bd sz =
     concat (map (\<lambda>origin.
       concat (map (\<lambda>d. line_attempts (run_from bd sz origin d)) ray_directions))
       (origins sz))"

text \<open>One attempt: the characters as written, then reversed.\<close>

definition validate_run :: "('s, 'e) cas \<Rightarrow> char \<Rightarrow> run \<Rightarrow> win_result option" where
  "validate_run K v rn =
     (case is_valid_equation K (map snd rn) v of
        Some n \<Rightarrow>
          Some \<lparr>coordinates = map fst rn, equation_text = map snd rn, solution = n\<rparr>
      | None \<Rightarrow>
          (case is_valid_equation K (rev (map snd rn)) v of
             Some n \<Rightarrow>
               Some \<lparr>coordinates = map fst rn, equation_text = rev (map snd rn), solution = n\<rparr>
           | None \<Rightarrow> None))"

definition find_win :: "('s, 'e) cas \<Rightarrow> char list list \<Rightarrow> int \<Rightarrow> char \<Rightarrow> win_result option" where
  "find_win K bd sz v = first_some (validate_run K v) (scan_attempts bd sz)"

text \<open>
  The placement rule in the words of section 4.4: along a ray from the target, the first
  cell that is not empty is the opponent's variable. A cell counts only while the walk is
  on the board.
\<close>

definition nearest_is_opponent ::
  "char list list \<Rightarrow> int \<Rightarrow> char \<Rightarrow> int \<times> int \<Rightarrow> int \<times> int \<Rightarrow> bool" where
  "nearest_is_opponent bd sz opp_sym target d =
     (\<exists>k\<ge>1. on_board sz (step target d (int k)) \<and>
             cell bd (step target d (int k)) = Some opp_sym \<and>
             (\<forall>j. 1 \<le> j \<and> j < k \<longrightarrow>
                  on_board sz (step target d (int j)) \<and>
                  cell bd (step target d (int j)) = Some EMPTY_CELL))"

definition opponent :: "player_id \<Rightarrow> player_id" where
  "opponent pid = (if pid = A then B else A)"

section \<open>Facts about the normaliser and the acceptance loop\<close>

lemma in_set_dropWhile: "x \<in> set xs \<Longrightarrow> \<not> P x \<Longrightarrow> x \<in> set (dropWhile P xs)"
  by (induction xs) auto

lemma operator_not_digit: "c \<in> set ''+-*/='' \<Longrightarrow> \<not> isdigit c"
  by (auto simp: isdigit_def)

lemma preprocess_keeps_operator:
  "c \<in> set ''+-*/='' \<Longrightarrow> c \<in> set s \<Longrightarrow> c \<in> set (preprocess_equation_string s)"
proof (induction s rule: preprocess_equation_string.induct)
  case 1
  then show ?case by simp
next
  case (2 ch rest)
  show ?case
  proof (cases "isdigit ch")
    case True
    with "2.prems" have "c \<noteq> ch" using operator_not_digit by blast
    with "2.prems" have "c \<in> set rest" by simp
    then have "c \<in> set (dropWhile isdigit rest)"
      using "2.prems"(1) operator_not_digit in_set_dropWhile by metis
    with "2.IH"(1) [OF True refl refl] "2.prems"(1)
    have "c \<in> set (preprocess_equation_string (dropWhile isdigit rest))" by blast
    with True show ?thesis by (simp add: Let_def)
  next
    case False
    show ?thesis
    proof (cases "c = ch")
      case True
      with False "2.prems"(1) show ?thesis by auto
    next
      case neq: False
      with "2.prems" have rest: "c \<in> set rest" by simp
      show ?thesis
      proof (cases "ch \<in> set player_symbols")
        case True
        with "2.IH"(2) [OF False True] "2.prems"(1) rest False show ?thesis by simp
      next
        case nsym: False
        show ?thesis
        proof (cases "ch \<in> set ''+-*/=''")
          case True
          with "2.IH"(3) [OF False nsym True] "2.prems"(1) rest False nsym show ?thesis
            by simp
        next
          case nop: False
          with "2.IH"(4) [OF False nsym nop] "2.prems"(1) rest False nsym show ?thesis
            by simp
        qed
      qed
    qed
  qed
qed

lemma count_one_member: "count_list s c = 1 \<Longrightarrow> c \<in> set s"
  by (metis count_list_0_iff zero_neq_one)

lemma prechecks_keep_equals:
  "passes_prechecks s v \<Longrightarrow> CHR ''='' \<in> set (preprocess_equation_string s)"
proof (rule preprocess_keeps_operator)
  show "CHR ''='' \<in> set ''+-*/=''" by simp
  assume "passes_prechecks s v"
  then have "count_list s CHR ''='' = 1" by (simp add: passes_prechecks_def)
  then show "CHR ''='' \<in> set s" by (rule count_one_member)
qed

text \<open>The function after its structural prechecks and its two guards on the normalised
  string.\<close>

lemma is_valid_equation_parse:
  assumes "passes_prechecks s v" and "has_operator (preprocess_equation_string s)"
  shows "is_valid_equation K s v = parse_and_solve K (preprocess_equation_string s) v"
proof -
  have "CHR ''='' \<in> set (preprocess_equation_string s)"
    using assms(1) by (rule prechecks_keep_equals)
  moreover have "\<not> length s < MIN_EQ_LEN" "count_list s CHR ''='' = 1" "v \<in> set s"
    "\<not> (case opp_var v of None \<Rightarrow> False | Some ov \<Rightarrow> ov \<in> set s)"
    using assms(1) by (auto simp: passes_prechecks_def split: option.splits)
  ultimately show ?thesis
    using assms(2) by (simp add: is_valid_equation_def has_operator_def Let_def)
qed

lemma parse_and_solve_parsed:
  assumes "parses_as K s v var lhs rhs"
  shows "parse_and_solve K (preprocess_equation_string s) v =
           (if \<not> (has K lhs var \<or> has K rhs var) then None
            else if lhs = rhs then None
            else (case solve K lhs rhs var of
                    None \<Rightarrow> None
                  | Some sols \<Rightarrow> if sols = [] then None else valid_integer_solution sols))"
  using assms by (auto simp: parse_and_solve_def parses_as_def split: prod.splits)

lemma py_int_of_int: "py_int (of_int n) = n"
  by (simp add: py_int_def)

lemma py_round_eq_round:
  assumes "\<bar>x - of_int (py_round x)\<bar> < 1 / 2 \<or> \<bar>x - of_int (round x)\<bar> < 1 / 2"
  shows "py_round x = round x"
proof -
  define f where "f = \<lfloor>x\<rfloor>"
  have fl: "of_int f \<le> x" "x < of_int f + 1"
    unfolding f_def by linarith+
  consider (lo) "x - of_int f < 1 / 2" | (hi) "1 / 2 < x - of_int f" | (tie) "x - of_int f = 1 / 2"
    by linarith
  then show ?thesis
  proof cases
    case lo
    then have "py_round x = f" by (simp add: py_round_def Let_def f_def)
    moreover have "round x = f"
      unfolding round_def using fl lo by (intro floor_unique) auto
    ultimately show ?thesis by simp
  next
    case hi
    then have "py_round x = f + 1" by (simp add: py_round_def Let_def f_def)
    moreover have "round x = f + 1"
      unfolding round_def using fl hi by (intro floor_unique) auto
    ultimately show ?thesis by simp
  next
    case tie
    have r: "round x = f + 1"
      unfolding round_def using fl tie by (intro floor_unique) auto
    have "py_round x = f \<or> py_round x = f + 1"
      using tie by (simp add: py_round_def Let_def f_def)
    then have "\<bar>x - of_int (py_round x)\<bar> = 1 / 2"
      using tie by auto
    moreover have "\<bar>x - of_int (round x)\<bar> = 1 / 2"
      using tie r by auto
    ultimately show ?thesis using assms by linarith
  qed
qed

lemma tolerance_small: "float_1e_10 < 1 / 2"
  by (simp add: float_1e_10_def)


lemma py_round_tolerance:
  "(\<bar>x - of_int (py_round x)\<bar> < float_1e_10) = within_tolerance x"
proof
  assume a: "\<bar>x - of_int (py_round x)\<bar> < float_1e_10"
  then have "\<bar>x - of_int (py_round x)\<bar> < 1 / 2" using tolerance_small by linarith
  then have "py_round x = round x" using py_round_eq_round by blast
  with a show "within_tolerance x" by (simp add: within_tolerance_def)
next
  assume a: "within_tolerance x"
  then have "\<bar>x - of_int (round x)\<bar> < 1 / 2"
    unfolding within_tolerance_def using tolerance_small by linarith
  then have "py_round x = round x" using py_round_eq_round by blast
  with a show "\<bar>x - of_int (py_round x)\<bar> < float_1e_10" by (simp add: within_tolerance_def)
qed

lemma within_tolerance_round: "within_tolerance x \<Longrightarrow> py_round x = round x"
proof -
  assume "within_tolerance x"
  then have "\<bar>x - of_int (round x)\<bar> < 1 / 2"
    unfolding within_tolerance_def using tolerance_small by linarith
  then show ?thesis using py_round_eq_round by blast
qed



lemma tolerance_branch:
  "(if \<bar>x - of_int (py_round x)\<bar> < float_1e_10 then Some (py_round x) else None) =
   (if within_tolerance x then Some (round x) else None)"
proof (cases "within_tolerance x")
  case True
  then have "\<bar>x - of_int (py_round x)\<bar> < float_1e_10"
    by (simp only: py_round_tolerance)
  then show ?thesis
    by (simp only: True if_True within_tolerance_round [OF True])
next
  case False
  then have "\<not> \<bar>x - of_int (py_round x)\<bar> < float_1e_10"
    by (simp only: py_round_tolerance not_False_eq_True)
  then show ?thesis
    by (simp only: False if_False)
qed

lemma solution_int_alt:
  "solution_int s =
     (if is_Integer s \<and> is_finite s then Some (py_int (sol_value s))
      else if is_Float s \<and> is_finite s \<and> sol_value s = of_int (py_int (sol_value s))
        then Some (py_int (sol_value s))
      else if is_Rational s \<and> is_finite s \<and> sol_q s = 1 then Some (sol_p s)
      else if is_real s \<and> is_finite s then
        (if within_tolerance (sol_value s) then Some (round (sol_value s)) else None)
      else None)"
  unfolding solution_int_def tolerance_branch by (rule refl)



lemma opp_var_x: "opp_var CHR ''x'' = Some CHR ''y''"
  by (simp add: opp_var_def PLAYERS_items_def)

lemma opp_var_other: "opp_var v = Some (if v = CHR ''x'' then CHR ''y'' else CHR ''x'')"
  by (simp add: opp_var_def PLAYERS_items_def)

section \<open>The validator: structural rejection\<close>

text \<open>
  C5. For every string \<open>s\<close> and variable \<open>v\<close>, the validator returns no solution
  whenever \<open>s\<close> is shorter than \<open>MIN_EQ_LEN = 5\<close>, or the number of \<open>=\<close> in \<open>s\<close> is not
  one, or \<open>v\<close> does not occur in \<open>s\<close>, or the opponent's variable occurs in \<open>s\<close>. This
  holds whatever the parser and the solver do.
\<close>

theorem validate_rejects_structure:
  assumes "length s < 5 \<or> count_list s CHR ''='' \<noteq> 1 \<or> v \<notin> set s \<or>
           (\<exists>ov. opp_var v = Some ov \<and> ov \<in> set s)"
  shows "is_valid_equation K s v = None"
  using assms by (auto simp: is_valid_equation_def MIN_EQ_LEN_def)

theorem validate_rejects_structure_witness:
  "length ''x=2'' < 5 \<and> is_valid_equation linear_cas ''x=2'' CHR ''x'' = None \<and>
   count_list ''x+1=2=2'' CHR ''='' = 2 \<and> is_valid_equation linear_cas ''x+1=2=2'' CHR ''x'' = None \<and>
   count_list ''x+1+2'' CHR ''='' = 0 \<and> is_valid_equation linear_cas ''x+1+2'' CHR ''x'' = None \<and>
   CHR ''x'' \<notin> set ''1+1=2'' \<and> is_valid_equation linear_cas ''1+1=2'' CHR ''x'' = None \<and>
   opp_var CHR ''x'' = Some CHR ''y'' \<and> CHR ''y'' \<in> set ''x+y=3'' \<and>
   is_valid_equation linear_cas ''x+y=3'' CHR ''x'' = None"
  using validate_rejects_structure [of "''x=2''" "CHR ''x''" linear_cas]
    validate_rejects_structure [of "''x+1=2=2''" "CHR ''x''" linear_cas]
    validate_rejects_structure [of "''x+1+2''" "CHR ''x''" linear_cas]
    validate_rejects_structure [of "''1+1=2''" "CHR ''x''" linear_cas]
    validate_rejects_structure [of "''x+y=3''" "CHR ''x''" linear_cas]
  by (simp add: opp_var_x)

section \<open>The validator: the operator guard\<close>

text \<open>
  C10. For every string and variable, if the normalised form of the string holds none of
  the characters \<open>+\<close>, \<open>-\<close>, \<open>*\<close>, \<open>/\<close>, the validator returns no solution, also when the
  string passes the four structural prechecks and denotes an equation with a unique
  integer solution, as \<open>x=200\<close> does.
\<close>

theorem validate_rejects_operator_free:
  assumes "\<not> has_operator (preprocess_equation_string s)"
  shows "is_valid_equation K s v = None"
  using assms by (simp add: is_valid_equation_def has_operator_def Let_def)

theorem validate_rejects_operator_free_witness:
  "passes_prechecks ''x=200'' CHR ''x'' \<and>
   preprocess_equation_string ''x=200'' = ''x=200'' \<and>
   \<not> has_operator (preprocess_equation_string ''x=200'') \<and>
   solve_linear Var (Num 200) = Some [Integer 200] \<and>
   is_valid_equation linear_cas ''x=200'' CHR ''x'' = None"
proof -
  have pre: "passes_prechecks ''x=200'' CHR ''x''"
    by (simp add: passes_prechecks_def MIN_EQ_LEN_def opp_var_x)
  have norm: "preprocess_equation_string ''x=200'' = ''x=200''"
    by code_simp
  have noop: "\<not> has_operator (preprocess_equation_string ''x=200'')"
    unfolding norm by (simp add: has_operator_def)
  have sol: "solve_linear Var (Num 200) = Some [Integer 200]"
    by code_simp
  show ?thesis
    using pre norm noop sol validate_rejects_operator_free [OF noop, of linear_cas "CHR ''x''"]
    by simp
qed

section \<open>The validator: semantic rejection\<close>

text \<open>
  C6. For every string that reaches the semantic checks (it passes the prechecks and the
  operator guard, and both sides parse): if neither parsed side holds the variable, the
  validator returns no solution; and if the two parsed sides are structurally identical,
  without the variable (a trivial truth) or with it (an identity), the validator returns
  no solution.
\<close>

theorem validate_rejects_trivial_and_identity:
  assumes "passes_prechecks s v"
    and "has_operator (preprocess_equation_string s)"
    and "parses_as K s v var lhs rhs"
  shows "(\<not> has K lhs var \<and> \<not> has K rhs var \<longrightarrow> is_valid_equation K s v = None) \<and>
         (lhs = rhs \<and> \<not> has K lhs var \<longrightarrow> is_valid_equation K s v = None) \<and>
         (lhs = rhs \<and> has K lhs var \<longrightarrow> is_valid_equation K s v = None)"
  by (simp add: is_valid_equation_parse [OF assms(1,2)] parse_and_solve_parsed [OF assms(3)])

theorem validate_rejects_trivial_and_identity_witness:
  "passes_prechecks ''z1+1=2'' CHR ''z'' \<and>
   parses_as linear_cas ''z1+1=2'' CHR ''z'' CHR ''z'' (Add (Num 1) (Num 1)) (Num 2) \<and>
   \<not> has linear_cas (Add (Num 1) (Num 1)) CHR ''z'' \<and> \<not> has linear_cas (Num 2) CHR ''z'' \<and>
   is_valid_equation linear_cas ''z1+1=2'' CHR ''z'' = None \<and>
   passes_prechecks ''x+1=x+1'' CHR ''x'' \<and>
   parses_as linear_cas ''x+1=x+1'' CHR ''x'' CHR ''x'' (Add Var (Num 1)) (Add Var (Num 1)) \<and>
   has linear_cas (Add Var (Num 1)) CHR ''x'' \<and>
   is_valid_equation linear_cas ''x+1=x+1'' CHR ''x'' = None"
proof -
  have p1: "passes_prechecks ''z1+1=2'' CHR ''z''"
    by (simp add: passes_prechecks_def MIN_EQ_LEN_def opp_var_other)
  have o1: "has_operator (preprocess_equation_string ''z1+1=2'')"
    by code_simp
  have q1: "parses_as linear_cas ''z1+1=2'' CHR ''z'' CHR ''z'' (Add (Num 1) (Num 1)) (Num 2)"
    by code_simp
  have p2: "passes_prechecks ''x+1=x+1'' CHR ''x''"
    by (simp add: passes_prechecks_def MIN_EQ_LEN_def opp_var_x)
  have o2: "has_operator (preprocess_equation_string ''x+1=x+1'')"
    by code_simp
  have q2: "parses_as linear_cas ''x+1=x+1'' CHR ''x'' CHR ''x'' (Add Var (Num 1)) (Add Var (Num 1))"
    by code_simp
  have h: "\<not> has linear_cas (Add (Num 1) (Num 1)) CHR ''z''" "\<not> has linear_cas (Num 2) CHR ''z''"
    "has linear_cas (Add Var (Num 1)) CHR ''x''"
    by (simp_all add: linear_cas_def)
  show ?thesis
    using p1 q1 p2 q2 h
      validate_rejects_trivial_and_identity [OF p1 o1 q1]
      validate_rejects_trivial_and_identity [OF p2 o2 q2]
    by simp
qed

section \<open>The validator: solution acceptance\<close>



section \<open>The validator: unique integer solutions\<close>

text \<open>
  C1, as amended. For every raw string that passes the four structural prechecks, whose
  normalised form holds at least one of the operators \<open>+\<close>, \<open>-\<close>, \<open>*\<close>, \<open>/\<close> and parses
  as \<open>lhs = rhs\<close> with the variable in a parsed side, the two sides not identical, and
  the integer \<open>n\<close> as the only solution, the validator returns \<open>n\<close>.
\<close>

theorem validate_returns_unique_solution:
  assumes "passes_prechecks s v"
    and "has_operator (preprocess_equation_string s)"
    and "parses_as K s v var lhs rhs"
    and "has K lhs var \<or> has K rhs var"
    and "lhs \<noteq> rhs"
    and "solve K lhs rhs var = Some [Integer n]"
  shows "is_valid_equation K s v = Some n"
  using assms(4-6)
  by (simp add: is_valid_equation_parse [OF assms(1,2)] parse_and_solve_parsed [OF assms(3)]
      solution_int_alt py_int_of_int)

theorem validate_returns_unique_solution_witness:
  "passes_prechecks ''3x-1=2x+4'' CHR ''x'' \<and>
   preprocess_equation_string ''3x-1=2x+4'' = ''3*x-1=2*x+4'' \<and>
   parses_as linear_cas ''3x-1=2x+4'' CHR ''x'' CHR ''x''
     (Sub (Mul (Num 3) Var) (Num 1)) (Add (Mul (Num 2) Var) (Num 4)) \<and>
   solve linear_cas (Sub (Mul (Num 3) Var) (Num 1)) (Add (Mul (Num 2) Var) (Num 4)) CHR ''x''
     = Some [Integer 5] \<and>
   is_valid_equation linear_cas ''3x-1=2x+4'' CHR ''x'' = Some 5"
proof -
  have p: "passes_prechecks ''3x-1=2x+4'' CHR ''x''"
    by (simp add: passes_prechecks_def MIN_EQ_LEN_def opp_var_x)
  have norm: "preprocess_equation_string ''3x-1=2x+4'' = ''3*x-1=2*x+4''"
    by code_simp
  have o: "has_operator (preprocess_equation_string ''3x-1=2x+4'')"
    unfolding norm by (simp add: has_operator_def)
  have q: "parses_as linear_cas ''3x-1=2x+4'' CHR ''x'' CHR ''x''
             (Sub (Mul (Num 3) Var) (Num 1)) (Add (Mul (Num 2) Var) (Num 4))"
    by code_simp
  have h: "has linear_cas (Sub (Mul (Num 3) Var) (Num 1)) CHR ''x'' \<or>
           has linear_cas (Add (Mul (Num 2) Var) (Num 4)) CHR ''x''"
    by (simp add: linear_cas_def)
  have n: "Sub (Mul (Num 3) Var) (Num 1) \<noteq> Add (Mul (Num 2) Var) (Num 4)"
    by simp
  have s: "solve linear_cas (Sub (Mul (Num 3) Var) (Num 1)) (Add (Mul (Num 2) Var) (Num 4))
             CHR ''x'' = Some [Integer 5]"
    by code_simp
  show ?thesis
    using p norm q s validate_returns_unique_solution [OF p o q h n s]
    by simp
qed

text \<open>
  The claim without the operator condition fails at the string \<open>x=200\<close> that it names: the
  string passes the four prechecks, it parses as \<open>x = 200\<close> with the variable on the left,
  the sides differ, \<open>200\<close> is the only solution, and the validator returns no solution.
\<close>

theorem validate_unique_solution_counterexample:
  "passes_prechecks ''x=200'' CHR ''x'' \<and>
   parses_as linear_cas ''x=200'' CHR ''x'' CHR ''x'' Var (Num 200) \<and>
   has linear_cas Var CHR ''x'' \<and>
   Var \<noteq> Num 200 \<and>
   solve linear_cas Var (Num 200) CHR ''x'' = Some [Integer 200] \<and>
   is_valid_equation linear_cas ''x=200'' CHR ''x'' = None \<and>
   is_valid_equation linear_cas ''x=200'' CHR ''x'' \<noteq> Some 200"
proof -
  have "passes_prechecks ''x=200'' CHR ''x''"
    by (simp add: passes_prechecks_def MIN_EQ_LEN_def opp_var_x)
  moreover have "parses_as linear_cas ''x=200'' CHR ''x'' CHR ''x'' Var (Num 200)"
    by code_simp
  moreover have "has linear_cas Var CHR ''x''"
    by (simp add: linear_cas_def)
  moreover have "solve linear_cas Var (Num 200) CHR ''x'' = Some [Integer 200]"
    by code_simp
  moreover have "is_valid_equation linear_cas ''x=200'' CHR ''x'' = None"
    by code_simp
  ultimately show ?thesis by simp
qed

section \<open>The validator: the examples of the specification\<close>

text \<open>
  C9. The validator returns 2 for \<open>x+1=3\<close>; the run \<open>2x=10\<close> is normalised to \<open>2*x=10\<close>
  and yields 5; \<open>5=5\<close> and \<open>x=x\<close> yield no solution (with any parser and solver);
  \<open>x/0=1\<close> yields no solution. The variable is \<open>x\<close>; the parser and the solver are the
  linear ones written from the specification.
\<close>

theorem validate_examples:
  "is_valid_equation linear_cas ''x+1=3'' CHR ''x'' = Some 2 \<and>
   preprocess_equation_string ''2x=10'' = ''2*x=10'' \<and>
   is_valid_equation linear_cas ''2x=10'' CHR ''x'' = Some 5 \<and>
   is_valid_equation linear_cas ''2*x=10'' CHR ''x'' = Some 5 \<and>
   is_valid_equation K ''5=5'' CHR ''x'' = None \<and>
   is_valid_equation K ''x=x'' CHR ''x'' = None \<and>
   is_valid_equation linear_cas ''x/0=1'' CHR ''x'' = None"
proof -
  have "is_valid_equation linear_cas ''x+1=3'' CHR ''x'' = Some 2"
    by code_simp
  moreover have "preprocess_equation_string ''2x=10'' = ''2*x=10''"
    by code_simp
  moreover have "is_valid_equation linear_cas ''2x=10'' CHR ''x'' = Some 5"
    by code_simp
  moreover have "is_valid_equation linear_cas ''2*x=10'' CHR ''x'' = Some 5"
    by code_simp
  moreover have "is_valid_equation K ''5=5'' CHR ''x'' = None"
    by (simp add: is_valid_equation_def MIN_EQ_LEN_def)
  moreover have "is_valid_equation K ''x=x'' CHR ''x'' = None"
    by (simp add: is_valid_equation_def MIN_EQ_LEN_def)
  moreover have "is_valid_equation linear_cas ''x/0=1'' CHR ''x'' = None"
    by code_simp
  ultimately show ?thesis by simp
qed

theorem validate_examples_witness:
  "is_valid_equation linear_cas ''x+1=3'' CHR ''x'' = Some 2 \<and>
   is_valid_equation linear_cas ''5=5'' CHR ''x'' = None \<and>
   is_valid_equation (cas_with_candidates [Integer 5]) ''x=x'' CHR ''x'' = None"
  using validate_examples [of linear_cas] validate_examples [of "cas_with_candidates [Integer 5]"]
  by simp

section \<open>Facts about loops with an early return\<close>

lemma first_some_Some: "first_some f xs = Some w \<Longrightarrow> \<exists>x \<in> set xs. f x = Some w"
  by (induction xs) (auto split: option.splits)

lemma first_some_None: "(first_some f xs = None) = (\<forall>x \<in> set xs. f x = None)"
  by (induction xs) (auto split: option.splits)

lemma first_some_append:
  "first_some f (xs @ ys) =
     (case first_some f xs of Some w \<Rightarrow> Some w | None \<Rightarrow> first_some f ys)"
  by (induction xs) (auto split: option.splits)

lemma first_some_map: "first_some f (map g xs) = first_some (\<lambda>x. f (g x)) xs"
  by (induction xs) (auto split: option.splits)

lemma first_some_concat: "first_some f (concat xss) = first_some (first_some f) xss"
  by (induction xss) (auto simp: first_some_append split: option.splits)

lemma first_some_filter:
  "first_some f (filter P xs) = first_some (\<lambda>x. if P x then f x else None) xs"
  by (induction xs) (auto split: option.splits)

section \<open>The line scanner: soundness\<close>

lemma check_sequence_sound:
  assumes "check_sequence K v raw coords = Some w"
  shows "is_valid_equation K (equation_text w) v = Some (solution w)"
  using assms by (auto simp: check_sequence_def split: if_splits option.splits)

lemma extend_line_sound:
  assumes "extend_line K bd sz v origin d is raw coords = Some w"
  shows "is_valid_equation K (equation_text w) v = Some (solution w)"
  using assms
proof (induction "is" arbitrary: raw coords)
  case Nil
  then show ?case by (cases origin; cases d) simp
next
  case (Cons i "is")
  obtain r0 c0 dr dc where od: "origin = (r0, c0)" "d = (dr, dc)"
    by (cases origin; cases d) blast
  from Cons.prems show ?case
    unfolding od
    by (auto simp: Let_def od dest: check_sequence_sound Cons.IH [unfolded od]
        split: if_splits option.splits)
qed

text \<open>
  C8. For every board, size and variable \<open>v\<close>: whenever the scanner reports a win,
  the validator applied to the returned equation text with \<open>v\<close> returns exactly the
  returned solution.
\<close>

theorem find_win_sound:
  assumes "check_win_board K bd sz v = Some w"
  shows "is_valid_equation K (equation_text w) v = Some (solution w)"
proof -
  from assms obtain r0 c0 d where
    "extend_line K bd sz v (r0, c0) d (py_range 0 sz) [] [] = Some w"
    by (auto simp: check_win_board_def split: if_splits dest!: first_some_Some)
  then show ?thesis by (rule extend_line_sound)
qed

theorem find_win_sound_witness:
  "check_win_board linear_cas
     [''      '', ''      '', ''x+2=5 '', ''      '', ''      '', ''      ''] 6 CHR ''x''
     = Some \<lparr>coordinates = [(2, 0), (2, 1), (2, 2), (2, 3), (2, 4)],
             equation_text = ''x+2=5'', solution = 3\<rparr> \<and>
   is_valid_equation linear_cas ''x+2=5'' CHR ''x'' = Some 3"
proof -
  have win: "check_win_board linear_cas
     [''      '', ''      '', ''x+2=5 '', ''      '', ''      '', ''      ''] 6 CHR ''x''
     = Some \<lparr>coordinates = [(2, 0), (2, 1), (2, 2), (2, 3), (2, 4)],
             equation_text = ''x+2=5'', solution = 3\<rparr>"
    by code_simp
  show ?thesis
    using win find_win_sound [OF win] by simp
qed

section \<open>The line scanner: the scan order\<close>

lemma check_sequence_run:
  "check_sequence K v (map snd acc) (map fst acc) =
     (if MIN_EQ_LEN \<le> length acc then validate_run K v acc else None)"
  by (simp add: check_sequence_def validate_run_def)

lemma extensions_Cons:
  "map (\<lambda>n. acc @ take n (x # xs)) [1..<Suc (length (x # xs))] =
     (acc @ [x]) # map (\<lambda>n. (acc @ [x]) @ take n xs) [1..<Suc (length xs)]"
proof -
  have "[1..<Suc (length (x # xs))] = 1 # map Suc [1..<Suc (length xs)]"
    by (simp add: upt_conv_Cons map_Suc_upt del: upt_Suc)
  then show ?thesis by (simp add: comp_def del: upt_Suc)
qed

text \<open>The innermost loop tries the run after each extension, in order. The run built so
  far has been tried before the loop goes on with it.\<close>

lemma extend_line_extensions:
  assumes "(if MIN_EQ_LEN \<le> length acc then validate_run K v acc else None) = None"
  shows "extend_line K bd sz v origin d is (map snd acc) (map fst acc) =
           first_some (\<lambda>a. if MIN_EQ_LEN \<le> length a then validate_run K v a else None)
             (map (\<lambda>n. acc @ take n (run_along (occupied bd sz) (map (step origin d) is)))
                [1..<Suc (length (run_along (occupied bd sz) (map (step origin d) is)))])"
  using assms
proof (induction "is" arbitrary: acc)
  case Nil
  then show ?case by (cases origin; cases d) simp
next
  case (Cons i "is")
  obtain r0 c0 dr dc where od: "origin = (r0, c0)" "d = (dr, dc)"
    by (cases origin; cases d) blast
  define p where "p = step origin d i"
  have p: "p = (r0 + i * dr, c0 + i * dc)"
    by (simp add: p_def step_def od)
  have tried: "check_sequence K v (map snd acc) (map fst acc) = None"
    using Cons.prems by (simp add: check_sequence_run)
  show ?case
  proof (cases "occupied bd sz p")
    case None
    then have "extend_line K bd sz v origin d (i # is) (map snd acc) (map fst acc) = None"
      using tried
      by (auto simp: od Let_def p occupied_def on_board_def cell_def split: option.splits if_splits)
    moreover have "run_along (occupied bd sz) (map (step origin d) (i # is)) = []"
      using None by (simp add: p_def)
    ultimately show ?thesis by simp
  next
    case (Some ch)
    then have on: "0 \<le> r0 + i * dr \<and> r0 + i * dr < sz \<and> 0 \<le> c0 + i * dc \<and> c0 + i * dc < sz"
      and ch: "board_at bd (r0 + i * dr) (c0 + i * dc) = Some ch" "ch \<noteq> EMPTY_CELL"
      by (auto simp: p occupied_def on_board_def cell_def split: option.splits if_splits)
    define acc' where "acc' = acc @ [(p, ch)]"
    have acc': "map snd acc' = map snd acc @ [ch]"
      "map fst acc' = map fst acc @ [(r0 + i * dr, c0 + i * dc)]"
      by (simp_all add: acc'_def p)
    have rn: "run_along (occupied bd sz) (map (step origin d) (i # is)) =
                (p, ch) # run_along (occupied bd sz) (map (step origin d) is)"
      using Some by (simp add: p_def)
    show ?thesis
    proof (cases "if MIN_EQ_LEN \<le> length acc' then validate_run K v acc' else None")
      case None
      then have cs: "check_sequence K v (map snd acc') (map fst acc') = None"
        by (simp only: check_sequence_run)
      have "extend_line K bd sz v origin d (i # is) (map snd acc) (map fst acc) =
              extend_line K bd sz v origin d is (map snd acc') (map fst acc')"
        using on ch cs by (simp add: od Let_def acc')
      also have "\<dots> = first_some (\<lambda>a. if MIN_EQ_LEN \<le> length a then validate_run K v a else None)
             (map (\<lambda>n. acc' @ take n (run_along (occupied bd sz) (map (step origin d) is)))
                [1..<Suc (length (run_along (occupied bd sz) (map (step origin d) is)))])"
        using None by (rule Cons.IH)
      finally show ?thesis
        using None unfolding rn extensions_Cons acc'_def by simp
    next
      case (Some w)
      then have cs: "check_sequence K v (map snd acc') (map fst acc') = Some w"
        by (simp only: check_sequence_run)
      have "extend_line K bd sz v origin d (i # is) (map snd acc) (map fst acc) = Some w"
        using on ch cs by (simp add: od Let_def acc')
      then show ?thesis
        using Some unfolding rn extensions_Cons acc'_def by simp
    qed
  qed
qed

lemma run_in_extensions: "rn \<noteq> [] \<Longrightarrow> rn \<in> set (extensions rn)"
proof -
  assume "rn \<noteq> []"
  then have "length rn \<in> set [1..<Suc (length rn)]" by (cases rn) auto
  then have "take (length rn) rn \<in> (\<lambda>n. take n rn) ` set [1..<Suc (length rn)]"
    by (rule imageI)
  then show ?thesis by (simp add: extensions_def)
qed

text \<open>The attempt at the boundary repeats the attempt made at the last extension.\<close>

lemma line_attempts_extensions:
  "first_some (validate_run K v) (line_attempts rn) =
     first_some (\<lambda>a. if MIN_EQ_LEN \<le> length a then validate_run K v a else None) (extensions rn)"
proof (cases "first_some (\<lambda>a. if MIN_EQ_LEN \<le> length a then validate_run K v a else None)
                (extensions rn)")
  case None
  have "(if MIN_EQ_LEN \<le> length rn then validate_run K v rn else None) = None"
  proof (cases "rn = []")
    case True
    then show ?thesis by (simp add: MIN_EQ_LEN_def)
  next
    case False
    then have "rn \<in> set (extensions rn)" by (rule run_in_extensions)
    with None show ?thesis unfolding first_some_None by blast
  qed
  with None show ?thesis
    by (auto simp: line_attempts_def first_some_filter first_some_append split: if_splits)
next
  case (Some w)
  then show ?thesis
    by (simp add: line_attempts_def first_some_filter first_some_append)
qed

lemma extend_line_attempts:
  "extend_line K bd sz v origin d (py_range 0 sz) [] [] =
     first_some (validate_run K v) (line_attempts (run_from bd sz origin d))"
proof -
  have "extend_line K bd sz v origin d (py_range 0 sz) (map snd ([] :: run)) (map fst ([] :: run)) =
          first_some (\<lambda>a. if MIN_EQ_LEN \<le> length a then validate_run K v a else None)
            (map (\<lambda>n. [] @ take n (run_along (occupied bd sz) (map (step origin d) (py_range 0 sz))))
               [1..<Suc (length (run_along (occupied bd sz) (map (step origin d) (py_range 0 sz))))])"
    by (rule extend_line_extensions) (simp add: MIN_EQ_LEN_def)
  then show ?thesis
    by (simp add: line_attempts_extensions extensions_def run_from_def ray_def)
qed

lemma run_along_nothing: "(\<And>p. occ p = None) \<Longrightarrow> run_along occ ps = []"
  by (cases ps) simp_all

lemma scan_attempts_no_rows: "scan_attempts [] sz = []"
proof -
  have "occupied [] sz p = None" for p
    by (auto simp: occupied_def cell_def board_at_def py_index_def)
  then have "run_from [] sz origin d = []" for origin d
    unfolding run_from_def by (rule run_along_nothing)
  then show ?thesis
    by (simp add: scan_attempts_def line_attempts_def extensions_def MIN_EQ_LEN_def)
qed

lemma first_some_origins:
  "first_some f (origins sz) =
     first_some (\<lambda>r0. first_some (\<lambda>c0. f (r0, c0)) (py_range 0 sz)) (py_range 0 sz)"
  by (simp add: origins_def first_some_concat first_some_map)

lemma check_win_board_scan: "check_win_board K bd sz v = find_win K bd sz v"
proof (cases "bd = []")
  case True
  then show ?thesis
    by (simp add: check_win_board_def find_win_def scan_attempts_no_rows)
next
  case False
  have dirs: "DIRECTIONS = ray_directions"
    by (simp add: DIRECTIONS_def ray_directions_def)
  have "find_win K bd sz v =
          first_some (\<lambda>origin.
            first_some (\<lambda>d.
              first_some (validate_run K v) (line_attempts (run_from bd sz origin d)))
              ray_directions)
            (origins sz)"
    by (simp add: find_win_def scan_attempts_def first_some_concat first_some_map)
  also have "\<dots> = check_win_board K bd sz v"
    using False
    by (simp add: check_win_board_def first_some_origins extend_line_attempts dirs)
  finally show ?thesis by simp
qed

text \<open>
  C2. The scanner examines the origins in row-major order and, for each origin, the eight
  directions in the order (0,1), (1,0), (1,1), (1,-1), (0,-1), (-1,0), (-1,-1), (-1,1); it
  extends the run one non-empty cell at a time and validates it once it has \<open>MIN_EQ_LEN\<close>
  cells, at every extension and at the boundary that ends it, the string as written
  before the reversed string; it returns the first win found in this order and reports
  no win only when every attempt of every origin and direction has failed.
\<close>

theorem find_win_scan_order:
  "check_win_board K bd sz v = first_some (validate_run K v) (scan_attempts bd sz) \<and>
   (check_win_board K bd sz v = None) =
     (\<forall>a \<in> set (scan_attempts bd sz). validate_run K v a = None)"
  using check_win_board_scan [of K bd sz v] by (simp add: find_win_def first_some_None)

theorem find_win_scan_order_witness:
  "check_win_board linear_cas [''x+1=3'', ''+    '', ''2    '', ''=    '', ''5    ''] 5 CHR ''x''
     = Some \<lparr>coordinates = [(0, 0), (0, 1), (0, 2), (0, 3), (0, 4)],
             equation_text = ''x+1=3'', solution = 2\<rparr> \<and>
   first_some (validate_run linear_cas CHR ''x'')
     (scan_attempts [''x+1=3'', ''+    '', ''2    '', ''=    '', ''5    ''] 5)
     = Some \<lparr>coordinates = [(0, 0), (0, 1), (0, 2), (0, 3), (0, 4)],
             equation_text = ''x+1=3'', solution = 2\<rparr> \<and>
   first_some (validate_run linear_cas CHR ''x'')
     (scan_attempts [''4x=21'', ''     '', ''     '', ''     '', ''     ''] 5)
     = Some \<lparr>coordinates = [(0, 0), (0, 1), (0, 2), (0, 3), (0, 4)],
             equation_text = ''12=x4'', solution = 3\<rparr> \<and>
   check_win_board linear_cas [''4x+21'', ''     '', ''     '', ''     '', ''     ''] 5 CHR ''x''
     = None \<and>
   list_all (\<lambda>a. validate_run linear_cas CHR ''x'' a = None)
     (scan_attempts [''4x+21'', ''     '', ''     '', ''     '', ''     ''] 5)"
proof -
  have w1: "check_win_board linear_cas [''x+1=3'', ''+    '', ''2    '', ''=    '', ''5    ''] 5
      CHR ''x''
     = Some \<lparr>coordinates = [(0, 0), (0, 1), (0, 2), (0, 3), (0, 4)],
             equation_text = ''x+1=3'', solution = 2\<rparr>"
    by code_simp
  have w2: "check_win_board linear_cas [''4x=21'', ''     '', ''     '', ''     '', ''     ''] 5
      CHR ''x''
     = Some \<lparr>coordinates = [(0, 0), (0, 1), (0, 2), (0, 3), (0, 4)],
             equation_text = ''12=x4'', solution = 3\<rparr>"
    by code_simp
  have w3: "check_win_board linear_cas [''4x+21'', ''     '', ''     '', ''     '', ''     ''] 5
      CHR ''x'' = None"
    by code_simp
  have s1: "first_some (validate_run linear_cas CHR ''x'')
     (scan_attempts [''x+1=3'', ''+    '', ''2    '', ''=    '', ''5    ''] 5)
     = Some \<lparr>coordinates = [(0, 0), (0, 1), (0, 2), (0, 3), (0, 4)],
             equation_text = ''x+1=3'', solution = 2\<rparr>"
    using w1 find_win_scan_order [of linear_cas
        "[''x+1=3'', ''+    '', ''2    '', ''=    '', ''5    '']" 5 "CHR ''x''"]
    by simp
  have s2: "first_some (validate_run linear_cas CHR ''x'')
     (scan_attempts [''4x=21'', ''     '', ''     '', ''     '', ''     ''] 5)
     = Some \<lparr>coordinates = [(0, 0), (0, 1), (0, 2), (0, 3), (0, 4)],
             equation_text = ''12=x4'', solution = 3\<rparr>"
    using w2 find_win_scan_order [of linear_cas
        "[''4x=21'', ''     '', ''     '', ''     '', ''     '']" 5 "CHR ''x''"]
    by simp
  have "\<forall>a \<in> set (scan_attempts [''4x+21'', ''     '', ''     '', ''     '', ''     ''] 5).
          validate_run linear_cas CHR ''x'' a = None"
    using w3 find_win_scan_order [of linear_cas
        "[''4x+21'', ''     '', ''     '', ''     '', ''     '']" 5 "CHR ''x''"]
    by blast
  then have s3: "list_all (\<lambda>a. validate_run linear_cas CHR ''x'' a = None)
     (scan_attempts [''4x+21'', ''     '', ''     '', ''     '', ''     ''] 5)"
    by (simp only: list_all_iff)
  from w1 s1 s2 w3 s3 show ?thesis
    by (intro conjI)
qed

section \<open>The placement rule\<close>

lemma first_hit_Cons:
  "(\<exists>n<length (x # xs). P ((x # xs) ! n) \<and> (\<forall>m<n. Q ((x # xs) ! m))) =
     (P x \<or> (Q x \<and> (\<exists>n<length xs. P (xs ! n) \<and> (\<forall>m<n. Q (xs ! m)))))"
  (is "?L = ?R")
proof
  assume ?L
  then obtain n where n: "n < length (x # xs)" "P ((x # xs) ! n)" "\<forall>m<n. Q ((x # xs) ! m)"
    by blast
  show ?R
  proof (cases n)
    case 0
    with n show ?thesis by simp
  next
    case (Suc k)
    with n have "k < length xs" "P (xs ! k)" by simp_all
    moreover have "Q (xs ! m)" if "m < k" for m
      using n(3) [rule_format, of "Suc m"] that Suc by simp
    moreover have "Q x"
      using n(3) [rule_format, of 0] Suc by simp
    ultimately show ?thesis by blast
  qed
next
  assume ?R
  then show ?L
  proof
    assume "P x"
    then have "0 < length (x # xs) \<and> P ((x # xs) ! 0) \<and> (\<forall>m<0. Q ((x # xs) ! m))" by simp
    then show ?L by blast
  next
    assume "Q x \<and> (\<exists>n<length xs. P (xs ! n) \<and> (\<forall>m<n. Q (xs ! m)))"
    then obtain n where n: "Q x" "n < length xs" "P (xs ! n)" "\<forall>m<n. Q (xs ! m)" by blast
    have "Q ((x # xs) ! m)" if "m < Suc n" for m
      using that n(1,4) by (cases m) simp_all
    with n have "Suc n < length (x # xs) \<and> P ((x # xs) ! Suc n) \<and> (\<forall>m<Suc n. Q ((x # xs) ! m))"
      by simp
    then show ?L by blast
  qed
qed

lemma check_direction_not_True:
  "check_direction bd sz opp_sym target d is \<noteq> Some True"
proof (induction "is")
  case Nil
  then show ?case by (cases target; cases d) simp
next
  case (Cons i "is")
  then show ?case
    by (cases target; cases d) (auto simp: Let_def split: option.splits)
qed

text \<open>The loop along one direction returns \<open>False\<close> exactly when some step reaches the
  opponent's symbol on the board and every step before it reached an empty cell on the
  board.\<close>

lemma check_direction_hit:
  "(check_direction bd sz opp_sym target d is = Some False) =
     (\<exists>n<length is.
        (on_board sz (step target d (is ! n)) \<and> cell bd (step target d (is ! n)) = Some opp_sym) \<and>
        (\<forall>m<n. on_board sz (step target d (is ! m)) \<and>
                cell bd (step target d (is ! m)) = Some EMPTY_CELL))"
proof (induction "is")
  case Nil
  then show ?case by (cases target; cases d) simp
next
  case (Cons i "is")
  obtain r c dr dc where td: "target = (r, c)" "d = (dr, dc)"
    by (cases target; cases d) blast
  have p: "step target d i = (r + i * dr, c + i * dc)"
    by (simp add: step_def td)
  have "(check_direction bd sz opp_sym target d (i # is) = Some False) =
          ((on_board sz (step target d i) \<and> cell bd (step target d i) = Some opp_sym) \<or>
           ((on_board sz (step target d i) \<and> cell bd (step target d i) = Some EMPTY_CELL) \<and>
            check_direction bd sz opp_sym target d is = Some False))"
    unfolding p by (auto simp: td Let_def on_board_def cell_def split: option.splits)
  then show ?case
    unfolding Cons.IH
    using first_hit_Cons [of i "is"
        "\<lambda>k. on_board sz (step target d k) \<and> cell bd (step target d k) = Some opp_sym"
        "\<lambda>k. on_board sz (step target d k) \<and> cell bd (step target d k) = Some EMPTY_CELL"]
    by simp
qed

lemma py_range_nth: "n < nat (hi - lo) \<Longrightarrow> py_range lo hi ! n = lo + int n"
  by (simp add: py_range_def)

lemma py_range_length: "length (py_range lo hi) = nat (hi - lo)"
  by (simp add: py_range_def)

lemma ray_directions_set:
  "set ray_directions = {(dr, dc). dr \<in> {-1, 0, 1} \<and> dc \<in> {-1, 0, 1} \<and> \<not> (dr = 0 \<and> dc = 0)}"
  by (auto simp: ray_directions_def)

text \<open>From a target on the board, a step that is on the board is shorter than the side.\<close>

lemma step_on_board_bound:
  assumes "on_board sz target" and "d \<in> set ray_directions" and "on_board sz (step target d (int k))"
  shows "int k < sz"
proof -
  obtain dr dc where d: "d = (dr, dc)" by (cases d)
  from assms(2) have "dr = 1 \<or> dr = -1 \<or> (dr = 0 \<and> (dc = 1 \<or> dc = -1))"
    unfolding d ray_directions_set by auto
  with assms(1,3) show ?thesis
    by (auto simp: on_board_def step_def d)
qed

lemma check_direction_nearest:
  assumes "on_board sz target" and "d \<in> set ray_directions"
  shows "(check_direction bd sz opp_sym target d (py_range 1 sz) = Some False) =
           nearest_is_opponent bd sz opp_sym target d"
proof
  assume "check_direction bd sz opp_sym target d (py_range 1 sz) = Some False"
  then obtain n where n: "n < nat (sz - 1)"
    "on_board sz (step target d (py_range 1 sz ! n))"
    "cell bd (step target d (py_range 1 sz ! n)) = Some opp_sym"
    "\<forall>m<n. on_board sz (step target d (py_range 1 sz ! m)) \<and>
           cell bd (step target d (py_range 1 sz ! m)) = Some EMPTY_CELL"
    unfolding check_direction_hit py_range_length by blast
  have nth: "py_range 1 sz ! m = int (Suc m)" if "m \<le> n" for m
    using that n(1) by (simp add: py_range_nth)
  have "on_board sz (step target d (int j)) \<and> cell bd (step target d (int j)) = Some EMPTY_CELL"
    if "1 \<le> j \<and> j < Suc n" for j
  proof -
    from that obtain m where m: "j = Suc m" "m < n" by (cases j) auto
    with n(4) [rule_format, of m] nth [of m] show ?thesis by simp
  qed
  with n(2,3) nth [of n] show "nearest_is_opponent bd sz opp_sym target d"
    unfolding nearest_is_opponent_def by (intro exI [of _ "Suc n"]) simp
next
  assume "nearest_is_opponent bd sz opp_sym target d"
  then obtain k where k: "1 \<le> k" "on_board sz (step target d (int k))"
    "cell bd (step target d (int k)) = Some opp_sym"
    "\<forall>j. 1 \<le> j \<and> j < k \<longrightarrow>
       on_board sz (step target d (int j)) \<and> cell bd (step target d (int j)) = Some EMPTY_CELL"
    unfolding nearest_is_opponent_def by blast
  from k(1) obtain n where n: "k = Suc n" by (cases k) auto
  have "int k < sz" using assms k(2) by (rule step_on_board_bound)
  then have len: "n < nat (sz - 1)" using n by simp
  have nth: "py_range 1 sz ! m = int (Suc m)" if "m \<le> n" for m
    using that len by (simp add: py_range_nth)
  have "on_board sz (step target d (py_range 1 sz ! m)) \<and>
        cell bd (step target d (py_range 1 sz ! m)) = Some EMPTY_CELL" if "m < n" for m
    using k(4) [rule_format, of "Suc m"] that n nth [of m] by simp
  with k(2,3) len nth [of n] n
  show "check_direction bd sz opp_sym target d (py_range 1 sz) = Some False"
    unfolding check_direction_hit py_range_length by (intro exI [of _ n]) simp
qed

lemma py_range_around: "py_range (- 1) 2 = [- 1, 0, 1]"
  by code_simp

lemma placement_valid_directions:
  "is_variable_placement_valid \<lparr>player_id = Some mover, board = bd, board_size = sz\<rparr> r c =
     (\<forall>d \<in> set ray_directions.
        check_direction bd sz (symbol (PLAYERS (opponent mover))) (r, c) d (py_range 1 sz)
          \<noteq> Some False)"
proof -
  define F where
    "F = (\<lambda>d. check_direction bd sz (symbol (PLAYERS (opponent mover))) (r, c) d (py_range 1 sz))"
  define X where
    "X = first_some (\<lambda>dr. first_some (\<lambda>dc. if dr = 0 \<and> dc = 0 then None else F (dr, dc))
           (py_range (- 1) 2)) (py_range (- 1) 2)"
  have val: "is_variable_placement_valid \<lparr>player_id = Some mover, board = bd, board_size = sz\<rparr> r c
               = (case X of Some verdict \<Rightarrow> verdict | None \<Rightarrow> True)"
    unfolding X_def F_def is_variable_placement_valid_def opponent_def Let_def
    by (simp cong: if_cong)
  have noT: "F d \<noteq> Some True" for d
    unfolding F_def by (rule check_direction_not_True)
  have "X \<noteq> Some True"
  proof
    assume "X = Some True"
    then obtain dr dc where "(if dr = 0 \<and> dc = 0 then None else F (dr, dc)) = Some True"
      unfolding X_def by (blast dest: first_some_Some)
    then show False using noT [of "(dr, dc)"] by (simp split: if_splits)
  qed
  then have "(case X of Some verdict \<Rightarrow> verdict | None \<Rightarrow> True) = (X = None)"
    by (cases X) auto
  also have "\<dots> = (\<forall>d \<in> set ray_directions. F d = None)"
    unfolding X_def first_some_None py_range_around ray_directions_set by auto
  also have "\<dots> = (\<forall>d \<in> set ray_directions. F d \<noteq> Some False)"
  proof -
    have "(F d = None) = (F d \<noteq> Some False)" for d
      using noT [of d] by (cases "F d") auto
    then show ?thesis by simp
  qed
  finally show ?thesis unfolding val F_def .
qed

lemma cell_in_row: "cell bd p = Some ch \<Longrightarrow> \<exists>row \<in> set bd. ch \<in> set row"
  by (auto simp: cell_def board_at_def py_index_def split: option.splits if_splits
      intro!: nth_mem bexI)

lemma player_symbol_not_empty: "symbol (PLAYERS pid) \<noteq> EMPTY_CELL"
  by (cases pid) (simp_all add: EMPTY_CELL_def)

text \<open>
  C3. For every board, target cell, mover and opponent, the placement check returns false
  if and only if along one of the eight rays from the target the first cell that is not
  empty holds the opponent's variable. Any other first non-empty cell, and a ray that
  reaches the edge through empty cells, leave the placement allowed; so on a board whose
  cells are all empty the check returns true for every cell.
\<close>

theorem placement_forbidden_iff_opponent_nearest:
  assumes "on_board sz (r, c)"
  shows "(is_variable_placement_valid \<lparr>player_id = Some mover, board = bd, board_size = sz\<rparr> r c
            = False) =
         (\<exists>d \<in> set ray_directions.
            nearest_is_opponent bd sz (symbol (PLAYERS (opponent mover))) (r, c) d) \<and>
         ((\<forall>row \<in> set bd. \<forall>ch \<in> set row. ch = EMPTY_CELL) \<longrightarrow>
            is_variable_placement_valid \<lparr>player_id = Some mover, board = bd, board_size = sz\<rparr> r c)"
proof -
  have iff: "is_variable_placement_valid \<lparr>player_id = Some mover, board = bd, board_size = sz\<rparr> r c =
      (\<forall>d \<in> set ray_directions.
        \<not> nearest_is_opponent bd sz (symbol (PLAYERS (opponent mover))) (r, c) d)"
    unfolding placement_valid_directions
    using check_direction_nearest [OF assms] by simp
  have "\<not> nearest_is_opponent bd sz (symbol (PLAYERS (opponent mover))) (r, c) d"
    if "\<forall>row \<in> set bd. \<forall>ch \<in> set row. ch = EMPTY_CELL" for d
  proof
    assume "nearest_is_opponent bd sz (symbol (PLAYERS (opponent mover))) (r, c) d"
    then obtain p where "cell bd p = Some (symbol (PLAYERS (opponent mover)))"
      unfolding nearest_is_opponent_def by blast
    then obtain row where "row \<in> set bd" "symbol (PLAYERS (opponent mover)) \<in> set row"
      by (blast dest: cell_in_row)
    with that show False using player_symbol_not_empty by blast
  qed
  with iff show ?thesis by blast
qed

theorem placement_forbidden_iff_opponent_nearest_witness:
  "on_board 5 (2, 0) \<and>
   is_variable_placement_valid
     \<lparr>player_id = Some A, board = [''     '', ''     '', ''  y1 '', ''     '', ''     ''],
      board_size = 5\<rparr> 2 0 = False \<and>
   nearest_is_opponent [''     '', ''     '', ''  y1 '', ''     '', ''     ''] 5 CHR ''y''
     (2, 0) (0, 1) \<and>
   (\<exists>d. d \<in> set ray_directions \<and>
      nearest_is_opponent [''     '', ''     '', ''  y1 '', ''     '', ''     ''] 5 CHR ''y'' (2, 0) d) \<and>
   is_variable_placement_valid
     \<lparr>player_id = Some A, board = [''     '', ''     '', '' 1y  '', ''     '', ''     ''],
      board_size = 5\<rparr> 2 0 = True \<and>
   is_variable_placement_valid
     \<lparr>player_id = Some A, board = [''     '', ''     '', ''     '', ''     '', ''     ''],
      board_size = 5\<rparr> 2 0 = True"
proof -
  have on: "on_board 5 (2, 0)"
    by (simp add: on_board_def)
  have sym: "symbol (PLAYERS (opponent A)) = CHR ''y''"
    by (simp add: opponent_def)
  have no: "is_variable_placement_valid
     \<lparr>player_id = Some A, board = [''     '', ''     '', ''  y1 '', ''     '', ''     ''],
      board_size = 5\<rparr> 2 0 = False"
    by code_simp
  have yes: "is_variable_placement_valid
     \<lparr>player_id = Some A, board = [''     '', ''     '', '' 1y  '', ''     '', ''     ''],
      board_size = 5\<rparr> 2 0 = True"
    by code_simp
  have empty: "is_variable_placement_valid
     \<lparr>player_id = Some A, board = [''     '', ''     '', ''     '', ''     '', ''     ''],
      board_size = 5\<rparr> 2 0 = True"
    using placement_forbidden_iff_opponent_nearest [OF on, of A
        "[''     '', ''     '', ''     '', ''     '', ''     '']"]
    by (simp add: EMPTY_CELL_def)
  have near: "nearest_is_opponent [''     '', ''     '', ''  y1 '', ''     '', ''     ''] 5
      CHR ''y'' (2, 0) (0, 1)"
    unfolding nearest_is_opponent_def
  proof (intro exI [of _ 2] conjI allI impI)
    show "(1::nat) \<le> 2" by simp
    show "on_board 5 (step (2, 0) (0, 1) (int 2))"
      by (simp add: on_board_def step_def)
    show "cell [''     '', ''     '', ''  y1 '', ''     '', ''     ''] (step (2, 0) (0, 1) (int 2))
            = Some CHR ''y''"
      by (simp add: cell_def step_def board_at_def py_index_def)
  next
    fix j :: nat
    assume "1 \<le> j \<and> j < 2"
    then have j: "j = 1" by arith
    show "on_board 5 (step (2, 0) (0, 1) (int j))"
      by (simp add: j on_board_def step_def)
    show "cell [''     '', ''     '', ''  y1 '', ''     '', ''     ''] (step (2, 0) (0, 1) (int j))
            = Some EMPTY_CELL"
      by (simp add: j cell_def step_def board_at_def py_index_def EMPTY_CELL_def)
  qed
  have some: "\<exists>d. d \<in> set ray_directions \<and>
      nearest_is_opponent [''     '', ''     '', ''  y1 '', ''     '', ''     ''] 5 CHR ''y'' (2, 0) d"
    using no placement_forbidden_iff_opponent_nearest [OF on, of A
        "[''     '', ''     '', ''  y1 '', ''     '', ''     '']"]
    by (auto simp: sym)
  from on no near some yes empty show ?thesis
    by (intro conjI)
qed

section \<open>The line scanner: boards that agree on the winning line\<close>

lemma validate_run_coordinates: "validate_run K v a = Some w \<Longrightarrow> coordinates w = map fst a"
  by (auto simp: validate_run_def split: option.splits)

lemma scan_attempts_member:
  "(a \<in> set (scan_attempts bd sz)) =
     (\<exists>origin \<in> set (origins sz). \<exists>d \<in> set ray_directions.
        a \<in> set (line_attempts (run_from bd sz origin d)))"
  by (auto simp: scan_attempts_def)

text \<open>The attempts of a line are the prefixes of its run that have \<open>MIN_EQ_LEN\<close> cells.\<close>

lemma line_attempts_member:
  "(a \<in> set (line_attempts rn)) =
     (MIN_EQ_LEN \<le> length a \<and> length a \<le> length rn \<and> a = take (length a) rn)"
  (is "?L = ?R")
proof
  assume ?L
  then have len: "MIN_EQ_LEN \<le> length a" and mem: "a \<in> set (extensions rn) \<or> a = rn"
    by (auto simp: line_attempts_def split: if_splits)
  from mem have "\<exists>n\<le>length rn. a = take n rn"
  proof
    assume "a \<in> set (extensions rn)"
    then obtain n where "n \<in> set [1..<Suc (length rn)]" "a = take n rn"
      unfolding extensions_def by auto
    then have "n \<le> length rn \<and> a = take n rn" by auto
    then show ?thesis by blast
  next
    assume "a = rn"
    then have "length rn \<le> length rn \<and> a = take (length rn) rn" by simp
    then show ?thesis by blast
  qed
  then obtain n where "n \<le> length rn" "a = take n rn" by blast
  with len show ?R by simp
next
  assume r: ?R
  then have "length a \<in> set [1..<Suc (length rn)]"
    by (auto simp: MIN_EQ_LEN_def)
  then have "take (length a) rn \<in> (\<lambda>n. take n rn) ` set [1..<Suc (length rn)]"
    by (rule imageI)
  with r show ?L
    by (simp add: line_attempts_def extensions_def)
qed

lemma run_along_prefix_agree:
  assumes "m \<le> length (run_along occ ps)"
    and "\<forall>q \<in> fst ` set (take m (run_along occ ps)). occ' q = occ q"
  shows "m \<le> length (run_along occ' ps) \<and> take m (run_along occ' ps) = take m (run_along occ ps)"
  using assms
proof (induction ps arbitrary: m)
  case Nil
  then show ?case by simp
next
  case (Cons p ps)
  show ?case
  proof (cases m)
    case 0
    then show ?thesis by simp
  next
    case (Suc k)
    with Cons.prems(1) obtain ch where ch: "occ p = Some ch"
      by (cases "occ p") auto
    with Cons.prems Suc have k: "k \<le> length (run_along occ ps)"
      and agree: "occ' p = occ p" "\<forall>q \<in> fst ` set (take k (run_along occ ps)). occ' q = occ q"
      by auto
    from Cons.IH [OF k agree(2)] ch agree(1) Suc show ?thesis by simp
  qed
qed

lemma occupied_agree: "cell bd' p = cell bd p \<Longrightarrow> occupied bd' sz p = occupied bd sz p"
  by (simp add: occupied_def)

lemma line_attempts_agree:
  assumes "a \<in> set (line_attempts (run_from bd sz origin d))"
    and "\<forall>p \<in> set (map fst a). cell bd' p = cell bd p"
  shows "a \<in> set (line_attempts (run_from bd' sz origin d))"
proof -
  from assms(1) have a: "MIN_EQ_LEN \<le> length a" "length a \<le> length (run_from bd sz origin d)"
    "a = take (length a) (run_from bd sz origin d)"
    unfolding line_attempts_member by simp_all
  have "\<forall>q \<in> fst ` set (take (length a) (run_along (occupied bd sz) (ray sz origin d))).
          occupied bd' sz q = occupied bd sz q"
    using assms(2) a(3) by (auto simp: run_from_def intro!: occupied_agree)
  with a(2) have "length a \<le> length (run_along (occupied bd' sz) (ray sz origin d)) \<and>
      take (length a) (run_along (occupied bd' sz) (ray sz origin d)) =
      take (length a) (run_along (occupied bd sz) (ray sz origin d))"
    unfolding run_from_def by (intro run_along_prefix_agree) simp_all
  with a show ?thesis
    unfolding line_attempts_member run_from_def by simp
qed

text \<open>
  C4, as amended. Let the scanner report the win \<open>w\<close> on a board, and let a second board,
  scanned with the same size, agree with the first on every cell of the coordinates of
  \<open>w\<close>. Then the scanner reports a win on the second board too: the attempt that gave
  \<open>w\<close> is among the attempts of the second board, and the result is \<open>w\<close> itself unless an
  attempt that comes earlier in the scan order succeeds on the second board, in which
  case the result is that earlier win.
\<close>

theorem find_win_stable_up_to_earlier_wins:
  assumes "check_win_board K bd sz v = Some w"
    and "\<forall>p \<in> set (coordinates w). cell bd' p = cell bd p"
  shows "check_win_board K bd' sz v \<noteq> None \<and>
         (\<exists>earlier a later.
            scan_attempts bd' sz = earlier @ a # later \<and>
            validate_run K v a = Some w \<and>
            check_win_board K bd' sz v =
              (case first_some (validate_run K v) earlier of
                 Some w' \<Rightarrow> Some w'
               | None \<Rightarrow> Some w))"
proof -
  from assms(1) obtain a where a: "a \<in> set (scan_attempts bd sz)" "validate_run K v a = Some w"
    unfolding check_win_board_scan find_win_def by (blast dest: first_some_Some)
  from a(2) have "coordinates w = map fst a" by (rule validate_run_coordinates)
  with assms(2) have agree: "\<forall>p \<in> set (map fst a). cell bd' p = cell bd p" by simp
  from a(1) obtain origin d where od: "origin \<in> set (origins sz)" "d \<in> set ray_directions"
    "a \<in> set (line_attempts (run_from bd sz origin d))"
    unfolding scan_attempts_member by blast
  from od(3) agree have "a \<in> set (line_attempts (run_from bd' sz origin d))"
    by (rule line_attempts_agree)
  with od(1,2) have "a \<in> set (scan_attempts bd' sz)"
    unfolding scan_attempts_member by blast
  then obtain earlier later where split: "scan_attempts bd' sz = earlier @ a # later"
    by (blast dest: split_list)
  have res: "check_win_board K bd' sz v =
          (case first_some (validate_run K v) earlier of Some w' \<Rightarrow> Some w' | None \<Rightarrow> Some w)"
    unfolding check_win_board_scan find_win_def split
    by (simp add: first_some_append a(2) split: option.splits)
  then have "check_win_board K bd' sz v \<noteq> None"
    by (simp split: option.splits)
  with split a(2) res show ?thesis by blast
qed

theorem find_win_stable_up_to_earlier_wins_witness:
  "check_win_board linear_cas [''     '', ''x+2=5'', ''     '', ''     '', ''     ''] 5 CHR ''x''
     = Some \<lparr>coordinates = [(1, 0), (1, 1), (1, 2), (1, 3), (1, 4)],
             equation_text = ''x+2=5'', solution = 3\<rparr> \<and>
   list_all (\<lambda>p. cell [''  7  '', ''x+2=5'', ''     '', ''1+1=2'', ''     ''] p =
                  cell [''     '', ''x+2=5'', ''     '', ''     '', ''     ''] p)
     [(1, 0), (1, 1), (1, 2), (1, 3), (1, 4)] \<and>
   check_win_board linear_cas [''  7  '', ''x+2=5'', ''     '', ''1+1=2'', ''     ''] 5 CHR ''x''
     \<noteq> None \<and>
   check_win_board linear_cas [''  7  '', ''x+2=5'', ''     '', ''1+1=2'', ''     ''] 5 CHR ''x''
     = Some \<lparr>coordinates = [(1, 0), (1, 1), (1, 2), (1, 3), (1, 4)],
             equation_text = ''x+2=5'', solution = 3\<rparr>"
proof -
  have win: "check_win_board linear_cas [''     '', ''x+2=5'', ''     '', ''     '', ''     ''] 5
      CHR ''x''
     = Some \<lparr>coordinates = [(1, 0), (1, 1), (1, 2), (1, 3), (1, 4)],
             equation_text = ''x+2=5'', solution = 3\<rparr>"
    by code_simp
  have agree: "list_all (\<lambda>p. cell [''  7  '', ''x+2=5'', ''     '', ''1+1=2'', ''     ''] p =
                  cell [''     '', ''x+2=5'', ''     '', ''     '', ''     ''] p)
     [(1, 0), (1, 1), (1, 2), (1, 3), (1, 4)]"
    by code_simp
  then have agree': "\<forall>p \<in> set (coordinates \<lparr>coordinates = [(1, 0), (1, 1), (1, 2), (1, 3), (1, 4)],
             equation_text = ''x+2=5'', solution = 3\<rparr>).
      cell [''  7  '', ''x+2=5'', ''     '', ''1+1=2'', ''     ''] p =
      cell [''     '', ''x+2=5'', ''     '', ''     '', ''     ''] p"
    by (simp add: list_all_iff)
  have same: "check_win_board linear_cas [''  7  '', ''x+2=5'', ''     '', ''1+1=2'', ''     ''] 5
      CHR ''x''
     = Some \<lparr>coordinates = [(1, 0), (1, 1), (1, 2), (1, 3), (1, 4)],
             equation_text = ''x+2=5'', solution = 3\<rparr>"
    by code_simp
  show ?thesis
    using win agree same find_win_stable_up_to_earlier_wins [OF win agree']
    by simp
qed

text \<open>
  The claim that the result is always the identical win fails: the second board below
  agrees with the first on the winning line in row 1 and differs in row 0 only, where it
  holds a win that the scan meets first.
\<close>

theorem find_win_determinism_counterexample:
  "check_win_board linear_cas [''     '', ''x+2=5'', ''     '', ''     '', ''     ''] 5 CHR ''x''
     = Some \<lparr>coordinates = [(1, 0), (1, 1), (1, 2), (1, 3), (1, 4)],
             equation_text = ''x+2=5'', solution = 3\<rparr> \<and>
   map length [''x+1=3'', ''x+2=5'', ''     '', ''     '', ''     '']
     = map length [''     '', ''x+2=5'', ''     '', ''     '', ''     ''] \<and>
   map (cell [''x+1=3'', ''x+2=5'', ''     '', ''     '', ''     ''])
     [(1, 0), (1, 1), (1, 2), (1, 3), (1, 4)]
     = map (cell [''     '', ''x+2=5'', ''     '', ''     '', ''     ''])
         [(1, 0), (1, 1), (1, 2), (1, 3), (1, 4)] \<and>
   check_win_board linear_cas [''x+1=3'', ''x+2=5'', ''     '', ''     '', ''     ''] 5 CHR ''x''
     = Some \<lparr>coordinates = [(0, 0), (0, 1), (0, 2), (0, 3), (0, 4)],
             equation_text = ''x+1=3'', solution = 2\<rparr> \<and>
   check_win_board linear_cas [''x+1=3'', ''x+2=5'', ''     '', ''     '', ''     ''] 5 CHR ''x''
     \<noteq> check_win_board linear_cas [''     '', ''x+2=5'', ''     '', ''     '', ''     ''] 5 CHR ''x''"
proof -
  have w1: "check_win_board linear_cas [''     '', ''x+2=5'', ''     '', ''     '', ''     ''] 5
      CHR ''x''
     = Some \<lparr>coordinates = [(1, 0), (1, 1), (1, 2), (1, 3), (1, 4)],
             equation_text = ''x+2=5'', solution = 3\<rparr>"
    by code_simp
  have w2: "check_win_board linear_cas [''x+1=3'', ''x+2=5'', ''     '', ''     '', ''     ''] 5
      CHR ''x''
     = Some \<lparr>coordinates = [(0, 0), (0, 1), (0, 2), (0, 3), (0, 4)],
             equation_text = ''x+1=3'', solution = 2\<rparr>"
    by code_simp
  have agree: "map (cell [''x+1=3'', ''x+2=5'', ''     '', ''     '', ''     ''])
     [(1, 0), (1, 1), (1, 2), (1, 3), (1, 4)]
     = map (cell [''     '', ''x+2=5'', ''     '', ''     '', ''     ''])
         [(1, 0), (1, 1), (1, 2), (1, 3), (1, 4)]"
    by code_simp
  show ?thesis
    unfolding w1 w2 using agree by simp
qed

end
